theory Spec2Isabelle
  imports Main
begin

section \<open>Machine arithmetic and constants (Common.h)\<close>

text \<open>
  \<^verbatim>\<open>size_t\<close> and \<^verbatim>\<open>PAGE_ID\<close> are 64-bit unsigned integers. They are modelled as
  natural numbers; every addition, subtraction and left shift of the source that can
  leave the range is written with its wrap-around modulo \<open>2 ^ 64\<close>. Addresses are
  natural numbers as well, and address \<open>0\<close> is \<^verbatim>\<open>nullptr\<close>.
\<close>

type_synonym ptr = nat

definition add64 :: "nat \<Rightarrow> nat \<Rightarrow> nat" where
  "add64 a b = (a + b) mod 2 ^ 64"

definition sub64 :: "nat \<Rightarrow> nat \<Rightarrow> nat" where
  "sub64 a b = (a + 2 ^ 64 - b mod 2 ^ 64) mod 2 ^ 64"

definition shl64 :: "nat \<Rightarrow> nat \<Rightarrow> nat" where
  "shl64 a k = (a * 2 ^ k) mod 2 ^ 64"

definition shr64 :: "nat \<Rightarrow> nat \<Rightarrow> nat" where
  "shr64 a k = a div 2 ^ k"

definition PAGE_SHIFT :: nat where
  "PAGE_SHIFT = 13"

definition PAGE_SIZE :: nat where
  "PAGE_SIZE = 2 ^ PAGE_SHIFT"

definition PAGE_ROUND_UP_NUM :: nat where
  "PAGE_ROUND_UP_NUM = PAGE_SIZE - 1"

definition MAX_NFREELISTS :: nat where
  "MAX_NFREELISTS = 264"

definition MAX_BYTES :: nat where
  "MAX_BYTES = 256 * 1024"

section \<open>SizeUtils: the size-class tables\<close>

text \<open>
  The two global arrays \<^verbatim>\<open>_size_lookup_table[MAX_BYTES + 1]\<close> (of \<^verbatim>\<open>uint16_t\<close>) and
  \<^verbatim>\<open>_class_to_size[MAX_NFREELISTS]\<close>, both zero-initialised. An array is a function
  from the index; the accessors below check the index the way the source's assertions do.
\<close>

record size_tables =
  size_lookup_table :: "nat \<Rightarrow> nat"
  class_to_size :: "nat \<Rightarrow> nat"

definition zero_tables :: size_tables where
  "zero_tables = \<lparr>size_lookup_table = (\<lambda>_. 0), class_to_size = (\<lambda>_. 0)\<rparr>"

definition RoundUpToPage :: "nat \<Rightarrow> nat" where
  "RoundUpToPage sz = (add64 sz PAGE_ROUND_UP_NUM div PAGE_SIZE) * PAGE_SIZE"

definition CalculateNextBlockSize :: "nat \<Rightarrow> nat" where
  "CalculateNextBlockSize current_size =
     (if current_size < 128 then add64 current_size 8
      else if current_size < 1024 then add64 current_size 16
      else if current_size < 8 * 1024 then add64 current_size 128
      else if current_size < 64 * 1024 then add64 current_size 512
      else add64 current_size (8 * 1024))"

text \<open>
  The state of the loop of \<^verbatim>\<open>Init\<close>: the \<^verbatim>\<open>int index\<close>, the \<^verbatim>\<open>size_t block_size\<close> and the
  two tables. \<open>Init_body i\<close> is one iteration, \<open>Init_upto m\<close> the iterations
  \<open>i = 1, ..., m\<close>.
\<close>

record init_state =
  ini_index :: nat
  ini_block_size :: nat
  ini_tables :: size_tables

definition Init_body :: "nat \<Rightarrow> init_state \<Rightarrow> init_state" where
  "Init_body i st =
     (let st1 = (if i > ini_block_size st
                 then st\<lparr>ini_index := ini_index st + 1,
                         ini_block_size := CalculateNextBlockSize (ini_block_size st)\<rparr>
                 else st);
          T1 = (ini_tables st1)\<lparr>size_lookup_table :=
                  (size_lookup_table (ini_tables st1))(i := ini_index st1 mod 2 ^ 16)\<rparr>;
          T2 = (if ini_index st1 < MAX_NFREELISTS
                then T1\<lparr>class_to_size := (class_to_size T1)(ini_index st1 := ini_block_size st1)\<rparr>
                else T1)
      in st1\<lparr>ini_tables := T2\<rparr>)"

primrec Init_upto :: "nat \<Rightarrow> init_state" where
  "Init_upto 0 = \<lparr>ini_index = 0, ini_block_size = 8, ini_tables = zero_tables\<rparr>"
| "Init_upto (Suc m) = Init_body (Suc m) (Init_upto m)"

definition Init :: size_tables where
  "Init = (let T = ini_tables (Init_upto MAX_BYTES)
           in T\<lparr>size_lookup_table := (size_lookup_table T)(0 := 0)\<rparr>)"

text \<open>
  \<^verbatim>\<open>Index\<close> asserts \<^verbatim>\<open>size <= MAX_BYTES\<close> and \<^verbatim>\<open>Size\<close> asserts
  \<^verbatim>\<open>index < MAX_NFREELISTS\<close>; a failed assertion (an out-of-range read) is \<open>None\<close>.
  \<^verbatim>\<open>NumMoveSize\<close> reads \<^verbatim>\<open>_class_to_size[index]\<close> and divides by it: an index outside
  the array or a zero entry is \<open>None\<close>.
\<close>

definition Index :: "size_tables \<Rightarrow> nat \<Rightarrow> nat option" where
  "Index T sz = (if sz \<le> MAX_BYTES then Some (size_lookup_table T sz) else None)"

definition Size :: "size_tables \<Rightarrow> nat \<Rightarrow> nat option" where
  "Size T index = (if index < MAX_NFREELISTS then Some (class_to_size T index) else None)"

definition RoundUp :: "size_tables \<Rightarrow> nat \<Rightarrow> nat option" where
  "RoundUp T sz =
     (if sz > MAX_BYTES then Some (RoundUpToPage sz)
      else case Index T sz of
             None \<Rightarrow> None
           | Some idx \<Rightarrow> if idx < MAX_NFREELISTS then Some (class_to_size T idx) else None)"

definition NumMoveSize :: "size_tables \<Rightarrow> nat \<Rightarrow> nat option" where
  "NumMoveSize T index =
     (if index < MAX_NFREELISTS \<and> class_to_size T index \<noteq> 0
      then (let num = MAX_BYTES div class_to_size T index;
                num1 = (if num < 2 then 2 else num);
                num2 = (if num1 > 32768 then 32768 else num1)
            in Some num2)
      else None)"


section \<open>The operating system: SystemAlloc\<close>

text \<open>
  \<^verbatim>\<open>SystemAlloc(kpage)\<close> maps \<^verbatim>\<open>kpage\<close> pages and returns their address, or throws
  \<^verbatim>\<open>std::bad_alloc\<close>. Where the mapping lands is the operating system's choice: the
  state holds the page counts requested so far (oldest first) and, for every call
  number, what the operating system answers (\<open>None\<close>: the mapping fails). A function
  of the model returns \<open>None\<close> when the source does not return normally: an exception, a
  failed assertion, or undefined behaviour (a null or dangling dereference, an array
  index out of its bounds).
\<close>

record os_state =
  os_calls :: "nat list"
  os_reply :: "nat \<Rightarrow> ptr option"

definition SystemAlloc :: "nat \<Rightarrow> os_state \<Rightarrow> (ptr \<times> os_state) option" where
  "SystemAlloc kpage os =
     (case os_reply os (length (os_calls os)) of
        None \<Rightarrow> None
      | Some p \<Rightarrow> if p = 0 then None else Some (p, os\<lparr>os_calls := os_calls os @ [kpage]\<rparr>))"

section \<open>PageMap: the radix tree from page ids to spans (64-bit layout)\<close>

definition BITS_ROOT :: nat where
  "BITS_ROOT = 12"

definition BITS_INTERNAL :: nat where
  "BITS_INTERNAL = 12"

definition BITS_LEAF :: nat where
  "BITS_LEAF = 11"

definition LEN_ROOT :: nat where
  "LEN_ROOT = 2 ^ BITS_ROOT"

definition LEN_INTERNAL :: nat where
  "LEN_INTERNAL = 2 ^ BITS_INTERNAL"

definition LEN_LEAF :: nat where
  "LEN_LEAF = 2 ^ BITS_LEAF"

text \<open>
  A node is the array it holds; a child pointer is \<open>None\<close> (\<^verbatim>\<open>nullptr\<close>) or the child
  node. \<open>at len a i\<close> reads an array of \<open>len\<close> elements: outside the array it is
  \<open>None\<close>.
\<close>

record PageMapLeaf =
  leaf_values :: "nat \<Rightarrow> ptr"

record PageMapInternal =
  leafs :: "nat \<Rightarrow> PageMapLeaf option"

record PageMap =
  root :: "nat \<Rightarrow> PageMapInternal option"

definition at :: "nat \<Rightarrow> (nat \<Rightarrow> 'a) \<Rightarrow> nat \<Rightarrow> 'a option" where
  "at len a i = (if i < len then Some (a i) else None)"

definition PageMap_get :: "PageMap \<Rightarrow> nat \<Rightarrow> ptr option" where
  "PageMap_get pm pid =
     (let iRoot = shr64 pid (BITS_INTERNAL + BITS_LEAF) in
      if iRoot \<ge> LEN_ROOT then Some 0
      else case at LEN_ROOT (root pm) iRoot of
             None \<Rightarrow> None
           | Some None \<Rightarrow> Some 0
           | Some (Some rootNode) \<Rightarrow>
               (let iInternal = and (shr64 pid BITS_LEAF) (LEN_INTERNAL - 1) in
                case at LEN_INTERNAL (leafs rootNode) iInternal of
                  None \<Rightarrow> None
                | Some None \<Rightarrow> Some 0
                | Some (Some leafNode) \<Rightarrow>
                    (let iLeaf = and pid (LEN_LEAF - 1) in
                     at LEN_LEAF (leaf_values leafNode) iLeaf)))"

text \<open>
  The constructor clears the root array. \<^verbatim>\<open>AllocNode\<close> takes the pages of a node from
  the operating system, which hands them out zero-filled; \<open>node_bytes\<close> is
  \<^verbatim>\<open>sizeof(NodeType)\<close>, eight bytes for each pointer of the array.
\<close>

definition PageMap_init :: PageMap where
  "PageMap_init = \<lparr>root = (\<lambda>_. None)\<rparr>"

definition zero_internal :: PageMapInternal where
  "zero_internal = \<lparr>leafs = (\<lambda>_. None)\<rparr>"

definition zero_leaf :: PageMapLeaf where
  "zero_leaf = \<lparr>leaf_values = (\<lambda>_. 0)\<rparr>"

definition AllocNode :: "nat \<Rightarrow> os_state \<Rightarrow> os_state option" where
  "AllocNode node_bytes os =
     map_option snd (SystemAlloc (shr64 (node_bytes + PAGE_SIZE - 1) PAGE_SHIFT) os)"

definition EnsureRoot :: "nat \<Rightarrow> PageMap \<times> os_state \<Rightarrow> (PageMap \<times> os_state) option" where
  "EnsureRoot index = (\<lambda>(pm, os).
     if index \<ge> LEN_ROOT then Some (pm, os)
     else if root pm index = None
     then (case AllocNode (8 * LEN_INTERNAL) os of
             None \<Rightarrow> None
           | Some os' \<Rightarrow> Some (pm\<lparr>root := (root pm)(index \<mapsto> zero_internal)\<rparr>, os'))
     else Some (pm, os))"

definition EnsureInternal ::
  "nat \<Rightarrow> nat \<Rightarrow> PageMap \<times> os_state \<Rightarrow> (PageMap \<times> os_state) option" where
  "EnsureInternal iRoot iInternal = (\<lambda>(pm, os).
     case at LEN_ROOT (root pm) iRoot of
       None \<Rightarrow> None
     | Some None \<Rightarrow> None
     | Some (Some rootNode) \<Rightarrow>
         (case at LEN_INTERNAL (leafs rootNode) iInternal of
            None \<Rightarrow> None
          | Some (Some leafNode) \<Rightarrow> Some (pm, os)
          | Some None \<Rightarrow>
              (case AllocNode (8 * LEN_LEAF) os of
                 None \<Rightarrow> None
               | Some os' \<Rightarrow>
                   Some (pm\<lparr>root := (root pm)(iRoot \<mapsto>
                           rootNode\<lparr>leafs := (leafs rootNode)(iInternal \<mapsto> zero_leaf)\<rparr>)\<rparr>, os'))))"

definition PageMap_set :: "nat \<Rightarrow> ptr \<Rightarrow> PageMap \<times> os_state \<Rightarrow> (PageMap \<times> os_state) option" where
  "PageMap_set pid span st =
     (let iRoot = shr64 pid (BITS_INTERNAL + BITS_LEAF) in
      case EnsureRoot iRoot st of
        None \<Rightarrow> None
      | Some st1 \<Rightarrow>
          (let iInternal = and (shr64 pid BITS_LEAF) (LEN_INTERNAL - 1) in
           case EnsureInternal iRoot iInternal st1 of
             None \<Rightarrow> None
           | Some (pm, os) \<Rightarrow>
               (let iLeaf = and pid (LEN_LEAF - 1) in
                case at LEN_ROOT (root pm) iRoot of
                  Some (Some rootNode) \<Rightarrow>
                    (case at LEN_INTERNAL (leafs rootNode) iInternal of
                       Some (Some leafNode) \<Rightarrow>
                         if iLeaf < LEN_LEAF
                         then Some (pm\<lparr>root := (root pm)(iRoot \<mapsto>
                                 rootNode\<lparr>leafs := (leafs rootNode)(iInternal \<mapsto>
                                   leafNode\<lparr>leaf_values := (leaf_values leafNode)(iLeaf := span)\<rparr>)\<rparr>)\<rparr>, os)
                         else None
                     | _ \<Rightarrow> None)
                | _ \<Rightarrow> None)))"

text \<open>A sequence of \<^verbatim>\<open>set\<close> calls, in order.\<close>

fun PageMap_set_all :: "(nat \<times> ptr) list \<Rightarrow> PageMap \<times> os_state \<Rightarrow> (PageMap \<times> os_state) option" where
  "PageMap_set_all [] st = Some st"
| "PageMap_set_all ((pid, span) # rest) st =
     (case PageMap_set pid span st of None \<Rightarrow> None | Some st' \<Rightarrow> PageMap_set_all rest st')"

section \<open>FreeList: the singly linked list of a thread cache (ThreadCache.h)\<close>

text \<open>
  \<^verbatim>\<open>NextObj(obj)\<close> is the first word of the object at address \<open>obj\<close>; the memory of
  the free objects is the function from an address to that word. Reading or writing
  \<^verbatim>\<open>NextObj(nullptr)\<close> is a null dereference.
\<close>

type_synonym memory = "ptr \<Rightarrow> ptr"

record FreeList =
  fl_head :: ptr
  fl_tail :: ptr
  fl_size :: nat
  fl_maxSize :: nat
  fl_maxNum :: nat

text \<open>
  The default member initialisers; \<^verbatim>\<open>_maxNum\<close> has none and is assigned by the
  constructor of \<^verbatim>\<open>ThreadCache\<close> before it is read.
\<close>

definition FreeList_init :: FreeList where
  "FreeList_init = \<lparr>fl_head = 0, fl_tail = 0, fl_size = 0, fl_maxSize = 1, fl_maxNum = 0\<rparr>"

definition Push :: "ptr \<Rightarrow> FreeList \<times> memory \<Rightarrow> (FreeList \<times> memory) option" where
  "Push obj = (\<lambda>(fl, mem).
     if obj = 0 then None
     else (let mem1 = mem(obj := fl_head fl);
               fl1 = fl\<lparr>fl_head := obj\<rparr>;
               fl2 = (if fl_tail fl1 = 0 then fl1\<lparr>fl_tail := obj\<rparr> else fl1)
           in Some (fl2\<lparr>fl_size := add64 (fl_size fl2) 1\<rparr>, mem1)))"

definition Pop :: "FreeList \<times> memory \<Rightarrow> (ptr \<times> FreeList \<times> memory) option" where
  "Pop = (\<lambda>(fl, mem).
     if fl_head fl = 0 then None
     else (let obj = fl_head fl;
               fl1 = fl\<lparr>fl_head := mem (fl_head fl)\<rparr>;
               fl2 = (if fl_head fl1 = 0 then fl1\<lparr>fl_tail := 0\<rparr> else fl1)
           in Some (obj, fl2\<lparr>fl_size := sub64 (fl_size fl2) 1\<rparr>, mem)))"

definition PushRange ::
  "ptr \<Rightarrow> ptr \<Rightarrow> nat \<Rightarrow> FreeList \<times> memory \<Rightarrow> (FreeList \<times> memory) option" where
  "PushRange start end n = (\<lambda>(fl, mem).
     if start = 0 \<or> end = 0 then None
     else (let mem1 = mem(end := fl_head fl);
               fl1 = fl\<lparr>fl_head := start\<rparr>;
               fl2 = (if fl_tail fl1 = 0 then fl1\<lparr>fl_tail := end\<rparr> else fl1)
           in Some (fl2\<lparr>fl_size := add64 (fl_size fl2) n\<rparr>, mem1)))"

text \<open>
  The loop of \<^verbatim>\<open>PopRange\<close>: \<open>walk mem p k\<close> follows \<^verbatim>\<open>NextObj\<close> \<open>k\<close> times from \<open>p\<close>;
  stepping from the null pointer is a null dereference.
\<close>

fun walk :: "memory \<Rightarrow> ptr \<Rightarrow> nat \<Rightarrow> ptr option" where
  "walk mem p 0 = Some p"
| "walk mem p (Suc k) = (if p = 0 then None else walk mem (mem p) k)"

definition PopRange :: "nat \<Rightarrow> FreeList \<times> memory \<Rightarrow> (ptr \<times> ptr \<times> FreeList \<times> memory) option" where
  "PopRange n = (\<lambda>(fl, mem).
     if n > fl_size fl then None
     else (let start = fl_head fl in
           case walk mem (fl_head fl) (sub64 n 1) of
             None \<Rightarrow> None
           | Some end \<Rightarrow>
               if end = 0 then None
               else (let fl1 = fl\<lparr>fl_head := mem end\<rparr>;
                         mem1 = mem(end := 0);
                         fl2 = (if fl_head fl1 = 0 then fl1\<lparr>fl_tail := 0\<rparr> else fl1)
                     in Some (start, end, fl2\<lparr>fl_size := sub64 (fl_size fl2) n\<rparr>, mem1))))"

definition Empty :: "FreeList \<Rightarrow> bool" where
  "Empty fl = (fl_head fl = 0)"

subsection \<open>The bookkeeping invariant\<close>

text \<open>
  \<open>chain mem p xs\<close>: the nodes reachable from \<open>p\<close> are exactly \<open>xs\<close>, in order, and the
  last one points to null. \<open>reach mem p k\<close> collects the nodes met from \<open>p\<close> in at most
  \<open>k\<close> steps. A list is in order when \<^verbatim>\<open>_size\<close> nodes are reachable from \<^verbatim>\<open>_head\<close>, the
  chain ends in null after them, \<^verbatim>\<open>_tail\<close> is the last of them (null when there is
  none), and every node is a 64-bit address.
\<close>

fun chain :: "memory \<Rightarrow> ptr \<Rightarrow> ptr list \<Rightarrow> bool" where
  "chain mem p [] = (p = 0)"
| "chain mem p (x # xs) = (p = x \<and> x \<noteq> 0 \<and> chain mem (mem x) xs)"

fun reach :: "memory \<Rightarrow> ptr \<Rightarrow> nat \<Rightarrow> ptr list" where
  "reach mem p 0 = []"
| "reach mem p (Suc k) = (if p = 0 then [] else p # reach mem (mem p) k)"

definition FreeList_ok :: "FreeList \<Rightarrow> memory \<Rightarrow> ptr list \<Rightarrow> bool" where
  "FreeList_ok fl mem xs =
     (chain mem (fl_head fl) xs \<and> fl_size fl = length xs \<and>
      fl_tail fl = (if xs = [] then 0 else last xs) \<and> list_all (\<lambda>x. x < 2 ^ 64) xs)"

definition FreeList_nodes :: "FreeList \<Rightarrow> memory \<Rightarrow> ptr list" where
  "FreeList_nodes fl mem = reach mem (fl_head fl) (fl_size fl)"

definition FreeList_inv :: "FreeList \<Rightarrow> memory \<Rightarrow> bool" where
  "FreeList_inv fl mem = FreeList_ok fl mem (FreeList_nodes fl mem)"

section \<open>Verification of the size-class tables\<close>

text \<open>\<open>block_of c\<close> is the value of \<^verbatim>\<open>block_size\<close> once \<^verbatim>\<open>index\<close> has reached \<open>c\<close>.\<close>

primrec block_of :: "nat \<Rightarrow> nat" where
  "block_of 0 = 8"
| "block_of (Suc c) = CalculateNextBlockSize (block_of c)"

definition in_class :: "nat \<Rightarrow> nat \<Rightarrow> bool" where
  "in_class c j = (j \<le> block_of c \<and> (c = 0 \<or> block_of (c - 1) < j))"

lemma add64_small: "a + b < 2 ^ 64 \<Longrightarrow> add64 a b = a + b"
  by (simp add: add64_def)

lemma CalculateNextBlockSize_small:
  "x \<le> 262144 \<Longrightarrow> CalculateNextBlockSize x =
     (if x < 128 then x + 8 else if x < 1024 then x + 16 else if x < 8192 then x + 128
      else if x < 65536 then x + 512 else x + 8192)"
  by (simp add: CalculateNextBlockSize_def add64_small)

text \<open>The block sizes in closed form, one alignment tier at a time.\<close>

lemma block_of_tier1: "c \<le> 15 \<Longrightarrow> block_of c = 8 * (c + 1)"
  by (induction c) (simp_all add: CalculateNextBlockSize_small)

lemma block_of_tier2: "d \<le> 56 \<Longrightarrow> block_of (15 + d) = 128 + 16 * d"
proof (induction d)
  case 0
  show ?case using block_of_tier1 [of 15] by simp
next
  case (Suc d)
  then have IH: "block_of (15 + d) = 128 + 16 * d" and d: "d < 56" by simp_all
  have "block_of (15 + Suc d) = CalculateNextBlockSize (128 + 16 * d)"
    unfolding add_Suc_right block_of.simps IH ..
  also have "\<dots> = 128 + 16 * Suc d"
    using d by (simp add: CalculateNextBlockSize_small)
  finally show ?case .
qed

lemma block_of_tier3: "d \<le> 56 \<Longrightarrow> block_of (71 + d) = 1024 + 128 * d"
proof (induction d)
  case 0
  show ?case using block_of_tier2 [of 56] by simp
next
  case (Suc d)
  then have IH: "block_of (71 + d) = 1024 + 128 * d" and d: "d < 56" by simp_all
  have "block_of (71 + Suc d) = CalculateNextBlockSize (1024 + 128 * d)"
    unfolding add_Suc_right block_of.simps IH ..
  also have "\<dots> = 1024 + 128 * Suc d"
    using d by (simp add: CalculateNextBlockSize_small)
  finally show ?case .
qed

lemma block_of_tier4: "d \<le> 112 \<Longrightarrow> block_of (127 + d) = 8192 + 512 * d"
proof (induction d)
  case 0
  show ?case using block_of_tier3 [of 56] by simp
next
  case (Suc d)
  then have IH: "block_of (127 + d) = 8192 + 512 * d" and d: "d < 112" by simp_all
  have "block_of (127 + Suc d) = CalculateNextBlockSize (8192 + 512 * d)"
    unfolding add_Suc_right block_of.simps IH ..
  also have "\<dots> = 8192 + 512 * Suc d"
    using d by (simp add: CalculateNextBlockSize_small)
  finally show ?case .
qed

lemma block_of_tier5: "d \<le> 24 \<Longrightarrow> block_of (239 + d) = 65536 + 8192 * d"
proof (induction d)
  case 0
  show ?case using block_of_tier4 [of 112] by simp
next
  case (Suc d)
  then have IH: "block_of (239 + d) = 65536 + 8192 * d" and d: "d < 24" by simp_all
  have "block_of (239 + Suc d) = CalculateNextBlockSize (65536 + 8192 * d)"
    unfolding add_Suc_right block_of.simps IH ..
  also have "\<dots> = 65536 + 8192 * Suc d"
    using d by (simp add: CalculateNextBlockSize_small)
  finally show ?case .
qed

lemma block_of_263: "block_of 263 = MAX_BYTES"
  using block_of_tier5 [of 24] by (simp add: MAX_BYTES_def)

lemma block_of_le: "c \<le> 263 \<Longrightarrow> block_of c \<le> 262144"
proof -
  assume c: "c \<le> 263"
  consider "c \<le> 15" | "15 \<le> c \<and> c \<le> 71" | "71 \<le> c \<and> c \<le> 127"
    | "127 \<le> c \<and> c \<le> 239" | "239 \<le> c \<and> c \<le> 263"
    using c by linarith
  then show ?thesis
  proof cases
    case 1
    then show ?thesis by (simp add: block_of_tier1)
  next
    case 2
    then have d: "c - 15 \<le> 56" and e: "15 + (c - 15) = c" by auto
    have "block_of (15 + (c - 15)) = 128 + 16 * (c - 15)" using d by (rule block_of_tier2)
    then show ?thesis using d unfolding e by simp
  next
    case 3
    then have d: "c - 71 \<le> 56" and e: "71 + (c - 71) = c" by auto
    have "block_of (71 + (c - 71)) = 1024 + 128 * (c - 71)" using d by (rule block_of_tier3)
    then show ?thesis using d unfolding e by simp
  next
    case 4
    then have d: "c - 127 \<le> 112" and e: "127 + (c - 127) = c" by auto
    have "block_of (127 + (c - 127)) = 8192 + 512 * (c - 127)" using d by (rule block_of_tier4)
    then show ?thesis using d unfolding e by simp
  next
    case 5
    then have d: "c - 239 \<le> 24" and e: "239 + (c - 239) = c" by auto
    have "block_of (239 + (c - 239)) = 65536 + 8192 * (c - 239)" using d by (rule block_of_tier5)
    then show ?thesis using d unfolding e by simp
  qed
qed

lemma block_of_step: "c < 263 \<Longrightarrow> block_of c < block_of (Suc c)"
proof -
  assume c: "c < 263"
  then have "block_of c \<le> 262144" by (intro block_of_le) simp
  then have "block_of c < CalculateNextBlockSize (block_of c)"
    by (simp add: CalculateNextBlockSize_small)
  then show ?thesis by simp
qed

lemma block_of_mono_strict: "a < b \<Longrightarrow> b \<le> 263 \<Longrightarrow> block_of a < block_of b"
proof (induction b)
  case 0
  then show ?case by simp
next
  case (Suc b)
  have s: "block_of b < block_of (Suc b)" using Suc.prems by (intro block_of_step) simp
  show ?case
  proof (cases "a = b")
    case True
    then show ?thesis using s by simp
  next
    case False
    then have "block_of a < block_of b" using Suc by simp
    then show ?thesis using s by simp
  qed
qed

lemma block_of_mono: "a \<le> b \<Longrightarrow> b \<le> 263 \<Longrightarrow> block_of a \<le> block_of b"
  using block_of_mono_strict [of a b] by (cases "a = b") simp_all

lemma in_class_unique:
  assumes "in_class a j" "in_class b j" "a \<le> 263" "b \<le> 263"
  shows "a = b"
proof (rule ccontr)
  assume ne: "a \<noteq> b"
  show False
  proof (cases "a < b")
    case True
    then have "block_of a \<le> block_of (b - 1)" using assms(4) by (intro block_of_mono) simp_all
    moreover have "block_of (b - 1) < j" using assms(2) True by (simp add: in_class_def)
    moreover have "j \<le> block_of a" using assms(1) by (simp add: in_class_def)
    ultimately show False by simp
  next
    case False
    then have lt: "b < a" using ne by simp
    then have "block_of b \<le> block_of (a - 1)" using assms(3) by (intro block_of_mono) simp_all
    moreover have "block_of (a - 1) < j" using assms(1) lt by (simp add: in_class_def)
    moreover have "j \<le> block_of b" using assms(2) by (simp add: in_class_def)
    ultimately show False by simp
  qed
qed

lemma in_class_self: "c \<le> 263 \<Longrightarrow> in_class c (block_of c)"
  using block_of_mono_strict [of "c - 1" c] by (cases c) (simp_all add: in_class_def)

definition Init_inv :: "nat \<Rightarrow> init_state \<Rightarrow> bool" where
  "Init_inv m st =
     (ini_index st \<le> 263 \<and>
      ini_block_size st = block_of (ini_index st) \<and>
      m \<le> block_of (ini_index st) \<and>
      (ini_index st = 0 \<or> block_of (ini_index st - 1) < m) \<and>
      (\<forall>j. 1 \<le> j \<and> j \<le> m \<longrightarrow>
           in_class (size_lookup_table (ini_tables st) j) j \<and>
           size_lookup_table (ini_tables st) j \<le> 263) \<and>
      (\<forall>c < ini_index st. class_to_size (ini_tables st) c = block_of c) \<and>
      (1 \<le> m \<longrightarrow> class_to_size (ini_tables st) (ini_index st) = block_of (ini_index st)))"

lemma Init_inv_0: "Init_inv 0 (Init_upto 0)"
  by (simp add: Init_inv_def)

lemma Init_inv_step:
  assumes inv: "Init_inv m st" and le: "Suc m \<le> MAX_BYTES"
  shows "Init_inv (Suc m) (Init_body (Suc m) st)"
proof (cases "Suc m > ini_block_size st")
  case True
  let ?c = "ini_index st"
  from inv have c263: "?c \<le> 263" and bs: "ini_block_size st = block_of ?c"
    and mle: "m \<le> block_of ?c"
    and tbl: "\<forall>j. 1 \<le> j \<and> j \<le> m \<longrightarrow>
           in_class (size_lookup_table (ini_tables st) j) j \<and>
           size_lookup_table (ini_tables st) j \<le> 263"
    and c2s: "\<forall>c < ?c. class_to_size (ini_tables st) c = block_of c"
    and c2s': "1 \<le> m \<longrightarrow> class_to_size (ini_tables st) ?c = block_of ?c"
    by (simp_all add: Init_inv_def)
  have "block_of 0 \<le> block_of ?c" using c263 by (intro block_of_mono) simp_all
  then have m1: "1 \<le> m" using True bs by simp
  have "block_of ?c < block_of 263" using True bs le block_of_263 by simp
  then have "?c \<noteq> 263" by auto
  then have c262: "?c < 263" using c263 by simp
  have step: "block_of ?c < block_of (Suc ?c)" using c262 by (rule block_of_step)
  have eq: "Init_body (Suc m) st =
      st\<lparr>ini_index := Suc ?c, ini_block_size := block_of (Suc ?c),
         ini_tables := (ini_tables st)\<lparr>
            size_lookup_table := (size_lookup_table (ini_tables st))(Suc m := Suc ?c),
            class_to_size := (class_to_size (ini_tables st))(Suc ?c := block_of (Suc ?c))\<rparr>\<rparr>"
    using True c262 by (simp add: Init_body_def Let_def bs MAX_NFREELISTS_def)
  have ic: "in_class (Suc ?c) (Suc m)"
    using True bs mle step by (simp add: in_class_def)
  show ?thesis
    unfolding eq Init_inv_def using c262 step True bs mle tbl c2s c2s' m1 ic
    by (auto simp: less_Suc_eq)
next
  case False
  let ?c = "ini_index st"
  from inv have c263: "?c \<le> 263" and bs: "ini_block_size st = block_of ?c"
    and mle: "m \<le> block_of ?c"
    and lo: "?c = 0 \<or> block_of (?c - 1) < m"
    and tbl: "\<forall>j. 1 \<le> j \<and> j \<le> m \<longrightarrow>
           in_class (size_lookup_table (ini_tables st) j) j \<and>
           size_lookup_table (ini_tables st) j \<le> 263"
    and c2s: "\<forall>c < ?c. class_to_size (ini_tables st) c = block_of c"
    by (simp_all add: Init_inv_def)
  have eq: "Init_body (Suc m) st =
      st\<lparr>ini_tables := (ini_tables st)\<lparr>
            size_lookup_table := (size_lookup_table (ini_tables st))(Suc m := ?c),
            class_to_size := (class_to_size (ini_tables st))(?c := block_of ?c)\<rparr>\<rparr>"
    using False c263 by (simp add: Init_body_def Let_def bs MAX_NFREELISTS_def)
  have ic: "in_class ?c (Suc m)"
    using False bs lo by (auto simp: in_class_def)
  show ?thesis
    unfolding eq Init_inv_def using c263 False bs lo tbl c2s ic
    by (auto simp: less_Suc_eq)
qed

lemma Init_inv_upto: "m \<le> MAX_BYTES \<Longrightarrow> Init_inv m (Init_upto m)"
proof (induction m)
  case 0
  show ?case by (rule Init_inv_0)
next
  case (Suc m)
  then have "Init_inv m (Init_upto m)" by simp
  then show ?case using Suc.prems by (simp add: Init_inv_step)
qed


lemma Init_final_index: "ini_index (Init_upto MAX_BYTES) = 263"
proof -
  have inv: "Init_inv MAX_BYTES (Init_upto MAX_BYTES)" by (simp add: Init_inv_upto)
  then have "in_class (ini_index (Init_upto MAX_BYTES)) MAX_BYTES"
    and "ini_index (Init_upto MAX_BYTES) \<le> 263"
    by (auto simp: Init_inv_def in_class_def)
  moreover have "in_class 263 MAX_BYTES"
    using in_class_self [of 263] by (simp add: block_of_263)
  ultimately show ?thesis by (intro in_class_unique [of _ MAX_BYTES]) simp_all
qed

lemma Init_class_to_size: "c \<le> 263 \<Longrightarrow> class_to_size Init c = block_of c"
proof -
  assume c: "c \<le> 263"
  have inv: "Init_inv MAX_BYTES (Init_upto MAX_BYTES)" by (simp add: Init_inv_upto)
  show ?thesis
  proof (cases "c = 263")
    case True
    then show ?thesis using inv Init_final_index
      by (simp add: Init_inv_def Init_def Let_def MAX_BYTES_def)
  next
    case False
    then have "c < ini_index (Init_upto MAX_BYTES)" using c Init_final_index by simp
    then show ?thesis using inv by (simp add: Init_inv_def Init_def Let_def)
  qed
qed

lemma Init_lookup:
  assumes "1 \<le> j" "j \<le> MAX_BYTES" "in_class c j" "c \<le> 263"
  shows "size_lookup_table Init j = c"
proof -
  have inv: "Init_inv MAX_BYTES (Init_upto MAX_BYTES)" by (simp add: Init_inv_upto)
  let ?t = "size_lookup_table (ini_tables (Init_upto MAX_BYTES)) j"
  have "in_class ?t j" and "?t \<le> 263" using inv assms(1,2) by (simp_all add: Init_inv_def)
  then have "?t = c" using assms(3,4) by (intro in_class_unique [of _ j]) simp_all
  then show ?thesis using assms(1) by (simp add: Init_def Let_def)
qed

lemma Init_lookup_ex:
  assumes "1 \<le> j" "j \<le> MAX_BYTES"
  shows "in_class (size_lookup_table Init j) j \<and> size_lookup_table Init j \<le> 263"
proof -
  have inv: "Init_inv MAX_BYTES (Init_upto MAX_BYTES)" by (simp add: Init_inv_upto)
  then show ?thesis using assms by (simp add: Init_inv_def Init_def Let_def)
qed

lemma Init_lookup_0: "size_lookup_table Init 0 = 0"
  by (simp add: Init_def Let_def)

lemma Size_Init: "c < MAX_NFREELISTS \<Longrightarrow> Size Init c = Some (block_of c)"
  by (simp add: Size_def Init_class_to_size MAX_NFREELISTS_def)

lemma block_of_ge: "c \<le> 263 \<Longrightarrow> 8 \<le> block_of c"
  using block_of_mono [of 0 c] by simp

lemma Index_Init_block: "c < MAX_NFREELISTS \<Longrightarrow> Index Init (block_of c) = Some c"
proof -
  assume "c < MAX_NFREELISTS"
  then have c: "c \<le> 263" by (simp add: MAX_NFREELISTS_def)
  have le: "block_of c \<le> MAX_BYTES" using block_of_le [OF c] by (simp add: MAX_BYTES_def)
  have "size_lookup_table Init (block_of c) = c"
    using block_of_ge [OF c] le in_class_self [OF c] c by (intro Init_lookup) simp_all
  then show ?thesis using le by (simp add: Index_def)
qed

lemma RoundUp_Init_class:
  assumes "1 \<le> n" "n \<le> MAX_BYTES" "in_class c n" "c \<le> 263"
  shows "RoundUp Init n = Some (block_of c)"
  using assms
  by (simp add: RoundUp_def Index_def Init_lookup [OF assms] Init_class_to_size MAX_NFREELISTS_def)

lemma RoundUp_Init_block: "c \<le> 263 \<Longrightarrow> RoundUp Init (block_of c) = Some (block_of c)"
proof -
  assume c: "c \<le> 263"
  have le: "block_of c \<le> MAX_BYTES" using block_of_le [OF c] by (simp add: MAX_BYTES_def)
  show ?thesis using block_of_ge [OF c] le in_class_self [OF c] c
    by (intro RoundUp_Init_class) simp_all
qed

text \<open>
  C8. After \<^verbatim>\<open>SizeUtils::Init\<close>, looking up the size of class \<open>i\<close> gives back class
  \<open>i\<close> for every class index below 264, and rounding up twice is rounding up once for
  every size from 1 to \<^verbatim>\<open>MAX_BYTES\<close>.
\<close>

theorem size_class_round_trip:
  "(i < MAX_NFREELISTS \<longrightarrow> Option.bind (Size Init i) (Index Init) = Some i) \<and>
   (1 \<le> n \<and> n \<le> MAX_BYTES \<longrightarrow>
      RoundUp Init n \<noteq> None \<and> Option.bind (RoundUp Init n) (RoundUp Init) = RoundUp Init n)"
proof (intro conjI impI)
  assume "i < MAX_NFREELISTS"
  then show "Option.bind (Size Init i) (Index Init) = Some i"
    by (simp add: Size_Init Index_Init_block)
next
  assume n: "1 \<le> n \<and> n \<le> MAX_BYTES"
  let ?c = "size_lookup_table Init n"
  have cls: "in_class ?c n" "?c \<le> 263" using n Init_lookup_ex [of n] by simp_all
  have r: "RoundUp Init n = Some (block_of ?c)"
    using n cls by (intro RoundUp_Init_class) simp_all
  show "RoundUp Init n \<noteq> None" by (simp add: r)
  show "Option.bind (RoundUp Init n) (RoundUp Init) = RoundUp Init n"
    by (simp add: r RoundUp_Init_block cls(2))
qed

lemma in_class_13: "in_class 1 13"
  by (simp add: in_class_def CalculateNextBlockSize_def add64_def)

theorem size_class_round_trip_witness:
  "(5 :: nat) < MAX_NFREELISTS \<and> Option.bind (Size Init 5) (Index Init) = Some 5 \<and>
   (1 :: nat) \<le> 13 \<and> 13 \<le> MAX_BYTES \<and> RoundUp Init 13 = Some 16 \<and>
   Option.bind (RoundUp Init 13) (RoundUp Init) = RoundUp Init 13"
proof -
  have a: "(5 :: nat) < MAX_NFREELISTS" by (simp add: MAX_NFREELISTS_def)
  have b: "(1 :: nat) \<le> 13 \<and> 13 \<le> MAX_BYTES" by (simp add: MAX_BYTES_def)
  have r: "RoundUp Init 13 = Some 16"
    using RoundUp_Init_class [of 13 1] in_class_13 b
    by (simp add: CalculateNextBlockSize_def add64_def)
  show ?thesis using size_class_round_trip [of 5 13] a b r by simp
qed


section \<open>Verification of the page map\<close>

lemma and_pow2_minus_1: "and (x::nat) (2 ^ n - 1) = x mod 2 ^ n"
  unfolding mask_eq_exp_minus_1 [symmetric] take_bit_eq_mask [symmetric]
  by (rule take_bit_eq_mod)

lemma index_decomp:
  fixes a b :: nat
  assumes "a div 8388608 = b div 8388608" "(a div 2048) mod 4096 = (b div 2048) mod 4096"
    "a mod 2048 = b mod 2048"
  shows "a = b"
proof -
  have d: "\<And>x::nat. x div 2048 div 4096 = x div 8388608"
    by (simp add: div_mult2_eq [symmetric])
  have "a div 2048 = (a div 2048 div 4096) * 4096 + (a div 2048) mod 4096"
    by (rule div_mult_mod_eq [symmetric])
  also have "\<dots> = (b div 2048 div 4096) * 4096 + (b div 2048) mod 4096"
    unfolding d assms(1) assms(2) ..
  also have "\<dots> = b div 2048" by (rule div_mult_mod_eq)
  finally have e: "a div 2048 = b div 2048" .
  have "a = (a div 2048) * 2048 + a mod 2048" by (rule div_mult_mod_eq [symmetric])
  also have "\<dots> = (b div 2048) * 2048 + b mod 2048" unfolding e assms(3) ..
  also have "\<dots> = b" by (rule div_mult_mod_eq)
  finally show ?thesis .
qed

lemma iInternal_eq: "and (shr64 pid BITS_LEAF) (LEN_INTERNAL - 1) = (pid div 2048) mod 4096"
  using and_pow2_minus_1 [of "pid div 2048" 12]
  by (simp add: shr64_def BITS_LEAF_def LEN_INTERNAL_def BITS_INTERNAL_def)

lemma iLeaf_eq: "and pid (LEN_LEAF - 1) = pid mod 2048"
  using and_pow2_minus_1 [of pid 11]
  by (simp add: LEN_LEAF_def BITS_LEAF_def)

lemma iRoot_eq: "shr64 pid (BITS_INTERNAL + BITS_LEAF) = pid div 8388608"
  by (simp add: shr64_def BITS_LEAF_def BITS_INTERNAL_def)

text \<open>The lookup, with the three indices written out.\<close>

lemma PageMap_get_unfold:
  "PageMap_get pm pid =
     Some (if 4096 \<le> pid div 8388608 then 0
           else case root pm (pid div 8388608) of
                  None \<Rightarrow> 0
                | Some rootNode \<Rightarrow>
                    (case leafs rootNode (pid div 2048 mod 4096) of
                       None \<Rightarrow> 0
                     | Some leafNode \<Rightarrow> leaf_values leafNode (pid mod 2048)))"
  unfolding PageMap_get_def Let_def iRoot_eq iInternal_eq iLeaf_eq
  by (simp add: at_def LEN_ROOT_def BITS_ROOT_def LEN_INTERNAL_def BITS_INTERNAL_def
      LEN_LEAF_def BITS_LEAF_def split: option.splits)

lemma EnsureRoot_root:
  assumes "EnsureRoot i (pm, os) = Some (pm1, os1)" "i < 4096"
  shows "root pm1 = (root pm)(i \<mapsto> (case root pm i of None \<Rightarrow> zero_internal | Some r \<Rightarrow> r))"
proof (cases "root pm i")
  case None
  then show ?thesis using assms
    by (auto simp: EnsureRoot_def LEN_ROOT_def BITS_ROOT_def split: option.splits)
next
  case (Some r)
  then have "pm1 = pm" using assms
    by (simp add: EnsureRoot_def LEN_ROOT_def BITS_ROOT_def)
  then show ?thesis using Some by (simp add: fun_upd_idem)
qed

lemma EnsureInternal_root:
  assumes "EnsureInternal i j (pm, os) = Some (pm1, os1)"
  shows "i < 4096 \<and> j < 4096 \<and> (\<exists>r. root pm i = Some r \<and>
           root pm1 = (root pm)(i \<mapsto> r\<lparr>leafs := (leafs r)(j \<mapsto>
              (case leafs r j of None \<Rightarrow> zero_leaf | Some l \<Rightarrow> l))\<rparr>))"
proof -
  from assms have i: "i < 4096"
    by (simp add: EnsureInternal_def at_def LEN_ROOT_def BITS_ROOT_def split: if_splits)
  from assms i obtain r where r: "root pm i = Some r"
    by (auto simp: EnsureInternal_def at_def LEN_ROOT_def BITS_ROOT_def split: option.splits)
  have e: "(case at LEN_INTERNAL (leafs r) j of
            None \<Rightarrow> None
          | Some (Some leafNode) \<Rightarrow> Some (pm, os)
          | Some None \<Rightarrow>
              (case AllocNode (8 * LEN_LEAF) os of
                 None \<Rightarrow> None
               | Some os' \<Rightarrow>
                   Some (pm\<lparr>root := (root pm)(i \<mapsto>
                           r\<lparr>leafs := (leafs r)(j \<mapsto> zero_leaf)\<rparr>)\<rparr>, os'))) = Some (pm1, os1)"
    using assms i r by (simp add: EnsureInternal_def at_def LEN_ROOT_def BITS_ROOT_def)
  then have j: "j < 4096"
    by (simp add: at_def LEN_INTERNAL_def BITS_INTERNAL_def split: if_splits)
  show ?thesis
  proof (cases "leafs r j")
    case None
    then have "root pm1 = (root pm)(i \<mapsto> r\<lparr>leafs := (leafs r)(j \<mapsto> zero_leaf)\<rparr>)"
      using e j by (auto simp: at_def LEN_INTERNAL_def BITS_INTERNAL_def split: option.splits)
    then show ?thesis using i j r None by simp
  next
    case (Some l)
    then have "pm1 = pm" using e j by (simp add: at_def LEN_INTERNAL_def BITS_INTERNAL_def)
    moreover have "r\<lparr>leafs := (leafs r)(j \<mapsto> l)\<rparr> = r" using Some by (simp add: fun_upd_idem)
    ultimately show ?thesis using i j r Some by (simp add: fun_upd_idem)
  qed
qed

lemma PageMap_set_root:
  assumes "PageMap_set pid span (pm, os) = Some (pm', os')"
  shows "pid div 8388608 < 4096 \<and>
     (\<exists>rootNode leafNode.
        root pm' = (root pm)(pid div 8388608 \<mapsto>
                 rootNode\<lparr>leafs := (leafs rootNode)(pid div 2048 mod 4096 \<mapsto>
                   leafNode\<lparr>leaf_values := (leaf_values leafNode)(pid mod 2048 := span)\<rparr>)\<rparr>) \<and>
        rootNode = (case root pm (pid div 8388608) of None \<Rightarrow> zero_internal | Some r \<Rightarrow> r) \<and>
        leafNode = (case leafs rootNode (pid div 2048 mod 4096) of None \<Rightarrow> zero_leaf | Some l \<Rightarrow> l))"
proof -
  let ?i = "pid div 8388608" and ?j = "pid div 2048 mod 4096" and ?k = "pid mod 2048"
  have s: "(case EnsureRoot ?i (pm, os) of
        None \<Rightarrow> None
      | Some st1 \<Rightarrow>
           (case EnsureInternal ?i ?j st1 of
             None \<Rightarrow> None
           | Some (pm2, os2) \<Rightarrow>
                (case at LEN_ROOT (root pm2) ?i of
                  Some (Some rootNode) \<Rightarrow>
                    (case at LEN_INTERNAL (leafs rootNode) ?j of
                       Some (Some leafNode) \<Rightarrow>
                         if ?k < LEN_LEAF
                         then Some (pm2\<lparr>root := (root pm2)(?i \<mapsto>
                                 rootNode\<lparr>leafs := (leafs rootNode)(?j \<mapsto>
                                   leafNode\<lparr>leaf_values := (leaf_values leafNode)(?k := span)\<rparr>)\<rparr>)\<rparr>, os2)
                         else None
                     | _ \<Rightarrow> None)
                | _ \<Rightarrow> None))) = Some (pm', os')"
    using assms unfolding PageMap_set_def Let_def iRoot_eq iInternal_eq iLeaf_eq .
  then obtain pm1 os1 where e1: "EnsureRoot ?i (pm, os) = Some (pm1, os1)"
    by (cases "EnsureRoot ?i (pm, os)") auto
  from s e1 obtain pm2 os2 where e2: "EnsureInternal ?i ?j (pm1, os1) = Some (pm2, os2)"
    by (cases "EnsureInternal ?i ?j (pm1, os1)") auto
  from EnsureInternal_root [OF e2] obtain r1 where
    i: "?i < 4096" and r1: "root pm1 ?i = Some r1"
    and pm2: "root pm2 = (root pm1)(?i \<mapsto> r1\<lparr>leafs := (leafs r1)(?j \<mapsto>
              (case leafs r1 ?j of None \<Rightarrow> zero_leaf | Some l \<Rightarrow> l))\<rparr>)"
    by blast
  have pm1: "root pm1 = (root pm)(?i \<mapsto> (case root pm ?i of None \<Rightarrow> zero_internal | Some r \<Rightarrow> r))"
    using e1 i by (rule EnsureRoot_root)
  have r1': "r1 = (case root pm ?i of None \<Rightarrow> zero_internal | Some r \<Rightarrow> r)"
    using r1 pm1 by simp
  let ?l = "case leafs r1 ?j of None \<Rightarrow> zero_leaf | Some l \<Rightarrow> l"
  have fin: "pm' = pm2\<lparr>root := (root pm2)(?i \<mapsto>
                (r1\<lparr>leafs := (leafs r1)(?j \<mapsto> ?l)\<rparr>)\<lparr>leafs :=
                   (leafs (r1\<lparr>leafs := (leafs r1)(?j \<mapsto> ?l)\<rparr>))(?j \<mapsto>
                      ?l\<lparr>leaf_values := (leaf_values ?l)(?k := span)\<rparr>)\<rparr>)\<rparr>"
    using s i
    by (simp add: e1 e2 pm2 at_def LEN_ROOT_def BITS_ROOT_def LEN_INTERNAL_def BITS_INTERNAL_def
        LEN_LEAF_def BITS_LEAF_def)
  have "root pm' = (root pm)(?i \<mapsto>
                 r1\<lparr>leafs := (leafs r1)(?j \<mapsto> ?l\<lparr>leaf_values := (leaf_values ?l)(?k := span)\<rparr>)\<rparr>)"
    unfolding fin by (simp add: pm2 pm1)
  then show ?thesis using i r1' by blast
qed

lemma PageMap_get_set:
  assumes "PageMap_set pid span (pm, os) = Some (pm', os')"
  shows "PageMap_get pm' q = (if q = pid then Some span else PageMap_get pm q)"
proof -
  from PageMap_set_root [OF assms] obtain rootNode leafNode where
    r: "pid div 8388608 < 4096"
    and pm': "root pm' = (root pm)(pid div 8388608 \<mapsto>
                 rootNode\<lparr>leafs := (leafs rootNode)(pid div 2048 mod 4096 \<mapsto>
                   leafNode\<lparr>leaf_values := (leaf_values leafNode)(pid mod 2048 := span)\<rparr>)\<rparr>)"
    and rn: "rootNode = (case root pm (pid div 8388608) of None \<Rightarrow> zero_internal | Some r \<Rightarrow> r)"
    and ln: "leafNode = (case leafs rootNode (pid div 2048 mod 4096) of None \<Rightarrow> zero_leaf | Some l \<Rightarrow> l)"
    by blast
  show ?thesis
  proof (cases "q = pid")
    case True
    then show ?thesis using r by (simp add: PageMap_get_unfold pm')
  next
    case False
    show ?thesis
    proof (cases "q div 8388608 = pid div 8388608")
      case r_ne: False
      then show ?thesis using False by (simp add: PageMap_get_unfold pm')
    next
      case r_eq: True
      show ?thesis
      proof (cases "q div 2048 mod 4096 = pid div 2048 mod 4096")
        case i_ne: False
        then show ?thesis using False r_eq
          by (simp add: PageMap_get_unfold pm' rn zero_internal_def split: option.splits)
      next
        case i_eq: True
        have "q mod 2048 \<noteq> pid mod 2048"
        proof
          assume "q mod 2048 = pid mod 2048"
          with r_eq i_eq have "q = pid" by (rule index_decomp)
          with False show False ..
        qed
        then have k_ne: "q mod 2048 \<noteq> pid mod 2048" .
        have g': "PageMap_get pm' q = Some (leaf_values leafNode (q mod 2048))"
          unfolding PageMap_get_unfold r_eq i_eq pm' using r k_ne by simp
        have g: "PageMap_get pm q = Some (leaf_values leafNode (q mod 2048))"
        proof (cases "root pm (pid div 8388608)")
          case None
          then show ?thesis unfolding PageMap_get_unfold r_eq i_eq using r
            by (simp add: rn ln zero_internal_def zero_leaf_def)
        next
          case (Some r0)
          then have rn0: "rootNode = r0" by (simp add: rn)
          show ?thesis
          proof (cases "leafs r0 (pid div 2048 mod 4096)")
            case None
            then show ?thesis unfolding PageMap_get_unfold r_eq i_eq using r Some
              by (simp add: ln rn0 zero_leaf_def)
          next
            case l0: (Some l0)
            then show ?thesis unfolding PageMap_get_unfold r_eq i_eq using r Some
              by (simp add: ln rn0)
          qed
        qed
        show ?thesis using False by (simp add: g g')
      qed
    qed
  qed
qed

lemma PageMap_get_init: "PageMap_get PageMap_init pid = Some 0"
  by (simp add: PageMap_get_unfold PageMap_init_def)

lemma PageMap_get_set_all:
  "PageMap_set_all ops (pm, os) = Some (pm', os') \<Longrightarrow> pid \<notin> fst ` set ops \<Longrightarrow>
     PageMap_get pm' pid = PageMap_get pm pid"
proof (induction ops arbitrary: pm os)
  case Nil
  then show ?case by simp
next
  case (Cons a ops)
  obtain q v where a: "a = (q, v)" by (cases a)
  from Cons.prems(1) obtain pm1 os1 where
    s1: "PageMap_set q v (pm, os) = Some (pm1, os1)"
    and s2: "PageMap_set_all ops (pm1, os1) = Some (pm', os')"
    by (auto simp: a split: option.splits)
  have "pid \<noteq> q" and "pid \<notin> fst ` set ops" using Cons.prems(2) by (auto simp: a)
  then show ?case using Cons.IH [OF s2] PageMap_get_set [OF s1, of pid] by simp
qed

text \<open>
  C10. \<^verbatim>\<open>PageMap::get\<close> returns for every page id: it never reads outside an array.
  It returns null when the root index is out of range, which is the case for every page
  id from \<open>2 ^ 35\<close> on, and when the node of the second or third level is absent;
  otherwise it returns the value of the leaf slot. After any sequence of \<^verbatim>\<open>set\<close> calls
  on a new map, a page id that was never set reads as null.
\<close>

theorem PageMap_get_total:
  "(\<exists>v. PageMap_get pm pid = Some v) \<and>
   (LEN_ROOT \<le> shr64 pid (BITS_INTERNAL + BITS_LEAF) \<longrightarrow> PageMap_get pm pid = Some 0) \<and>
   (2 ^ 35 \<le> pid \<longrightarrow> PageMap_get pm pid = Some 0) \<and>
   (root pm (shr64 pid (BITS_INTERNAL + BITS_LEAF)) = None \<longrightarrow> PageMap_get pm pid = Some 0) \<and>
   (\<forall>rootNode. root pm (shr64 pid (BITS_INTERNAL + BITS_LEAF)) = Some rootNode \<and>
       leafs rootNode (and (shr64 pid BITS_LEAF) (LEN_INTERNAL - 1)) = None \<longrightarrow>
       PageMap_get pm pid = Some 0) \<and>
   (\<forall>rootNode leafNode. shr64 pid (BITS_INTERNAL + BITS_LEAF) < LEN_ROOT \<and>
       root pm (shr64 pid (BITS_INTERNAL + BITS_LEAF)) = Some rootNode \<and>
       leafs rootNode (and (shr64 pid BITS_LEAF) (LEN_INTERNAL - 1)) = Some leafNode \<longrightarrow>
       PageMap_get pm pid = Some (leaf_values leafNode (and pid (LEN_LEAF - 1)))) \<and>
   (PageMap_set_all ops (PageMap_init, os) = Some (pm', os') \<and> pid \<notin> fst ` set ops \<longrightarrow>
       PageMap_get pm' pid = Some 0)"
proof -
  have big: "2 ^ 35 \<le> pid \<Longrightarrow> 4096 \<le> pid div 8388608"
  proof -
    assume "2 ^ 35 \<le> pid"
    then have "2 ^ 35 div 8388608 \<le> pid div 8388608" by (rule div_le_mono)
    then show ?thesis by simp
  qed
  have never: "PageMap_set_all ops (PageMap_init, os) = Some (pm', os') \<Longrightarrow>
      pid \<notin> fst ` set ops \<Longrightarrow> PageMap_get pm' pid = Some 0"
    using PageMap_get_set_all [of ops PageMap_init os pm' os' pid] PageMap_get_init by simp
  show ?thesis
    unfolding iRoot_eq iInternal_eq iLeaf_eq
    using big never
    by (auto simp: PageMap_get_unfold LEN_ROOT_def BITS_ROOT_def)
qed

definition os_example :: os_state where
  "os_example = \<lparr>os_calls = [], os_reply = (\<lambda>n. Some (2 ^ 30 + n * 2 ^ 20))\<rparr>"

lemma PageMap_set_example:
  "\<exists>pm' os'. PageMap_set_all [(5, 77)] (PageMap_init, os_example) = Some (pm', os')"
  unfolding PageMap_set_all.simps PageMap_set_def Let_def iRoot_eq iInternal_eq iLeaf_eq
  by (simp add: EnsureRoot_def EnsureInternal_def AllocNode_def SystemAlloc_def os_example_def
      PageMap_init_def at_def LEN_ROOT_def BITS_ROOT_def LEN_INTERNAL_def BITS_INTERNAL_def
      LEN_LEAF_def BITS_LEAF_def zero_internal_def zero_leaf_def)

theorem PageMap_get_total_witness:
  "\<exists>pm' os'. PageMap_set_all [(5, 77)] (PageMap_init, os_example) = Some (pm', os') \<and>
     (6::nat) \<notin> fst ` set [(5, 77::nat)] \<and>
     PageMap_get pm' 6 = Some 0 \<and> PageMap_get pm' 5 = Some 77 \<and>
     (2::nat) ^ 35 \<le> 2 ^ 40 \<and> PageMap_get pm' (2 ^ 40) = Some 0"
proof -
  from PageMap_set_example obtain pm' os' where
    s: "PageMap_set_all [(5, 77)] (PageMap_init, os_example) = Some (pm', os')" by blast
  have n: "(6::nat) \<notin> fst ` set [(5, 77::nat)]" by simp
  have a: "PageMap_get pm' 6 = Some 0"
    using PageMap_get_total [of pm' 6 "[(5, 77)]" os_example pm' os'] s n by blast
  have b: "PageMap_get pm' (2 ^ 40) = Some 0"
    using PageMap_get_total [of pm' "2 ^ 40" "[]" os_example pm' os'] by simp
  from s obtain st where "PageMap_set 5 77 (PageMap_init, os_example) = Some st" and "st = (pm', os')"
    by (auto split: option.splits)
  then have c: "PageMap_get pm' 5 = Some 77" using PageMap_get_set [of 5 77 PageMap_init os_example pm' os' 5]
    by simp
  show ?thesis using s n a b c by auto
qed

section \<open>Verification of the free list\<close>

lemma sub64_small: "b \<le> a \<Longrightarrow> a < 2 ^ 64 \<Longrightarrow> sub64 a b = a - b"
proof -
  assume le: "b \<le> a" and a: "a < 2 ^ 64"
  then have b: "b mod 2 ^ 64 = b" by simp
  have "a + 2 ^ 64 - b = (a - b) + 2 ^ 64" using le by simp
  then have "(a + 2 ^ 64 - b) mod 2 ^ 64 = (a - b) mod 2 ^ 64" by (metis mod_add_self2)
  then show ?thesis using a unfolding sub64_def b by simp
qed

lemma chain_unique: "chain mem p xs \<Longrightarrow> chain mem p ys \<Longrightarrow> xs = ys"
proof (induction xs arbitrary: p ys)
  case Nil
  then show ?case by (cases ys) auto
next
  case (Cons x xs)
  then show ?case by (cases ys) auto
qed

lemma chain_append: "chain mem p (xs @ ys) \<Longrightarrow> chain mem (if ys = [] then 0 else hd ys) ys"
proof (induction xs arbitrary: p)
  case Nil
  then show ?case by (cases ys) auto
next
  case (Cons x xs)
  from Cons.prems have "chain mem (mem x) (xs @ ys)" by simp
  then show ?case by (rule Cons.IH)
qed

lemma chain_next_notin:
  assumes "chain mem (mem x) xs"
  shows "x \<notin> set xs"
proof
  assume "x \<in> set xs"
  then obtain as bs where xs: "xs = as @ x # bs" by (auto simp: in_set_conv_decomp)
  from assms have "chain mem x (x # bs)"
    using chain_append [of mem "mem x" as "x # bs"] by (simp add: xs)
  then have "chain mem (mem x) bs" by simp
  with assms have "xs = bs" by (rule chain_unique)
  then show False by (simp add: xs)
qed

lemma chain_distinct: "chain mem p xs \<Longrightarrow> distinct xs"
  by (induction xs arbitrary: p) (auto dest: chain_next_notin)

lemma chain_nonzero: "chain mem p xs \<Longrightarrow> 0 \<notin> set xs"
  by (induction xs arbitrary: p) auto

lemma chain_update: "a \<notin> set xs \<Longrightarrow> chain (mem(a := v)) p xs = chain mem p xs"
  by (induction xs arbitrary: p) auto

lemma chain_reach: "chain mem p xs \<Longrightarrow> reach mem p (length xs) = xs"
  by (induction xs arbitrary: p) auto

lemma bounded_distinct_length:
  fixes xs :: "nat list"
  assumes "distinct xs" "0 \<notin> set xs" "list_all (\<lambda>x. x < 2 ^ 64) xs"
  shows "length xs < 2 ^ 64"
proof -
  have "set xs \<subseteq> {1..<2 ^ 64 :: nat}"
  proof
    fix x assume x: "x \<in> set xs"
    then have "x < 2 ^ 64" using assms(3) by (simp add: list_all_iff)
    moreover have "x \<noteq> 0" using x assms(2) by metis
    ultimately show "x \<in> {1..<2 ^ 64 :: nat}" by simp
  qed
  then have "card (set xs) \<le> card {1..<2 ^ 64 :: nat}" by (intro card_mono) simp_all
  then show ?thesis using assms(1) by (simp add: distinct_card)
qed

lemma FreeList_ok_length: "FreeList_ok fl mem xs \<Longrightarrow> length xs < 2 ^ 64"
  unfolding FreeList_ok_def
  using bounded_distinct_length chain_distinct chain_nonzero by blast

lemma FreeList_ok_nodes: "FreeList_ok fl mem xs \<Longrightarrow> FreeList_nodes fl mem = xs"
  by (simp add: FreeList_ok_def FreeList_nodes_def chain_reach)

lemma FreeList_inv_iff: "FreeList_inv fl mem \<longleftrightarrow> (\<exists>xs. FreeList_ok fl mem xs)"
  using FreeList_ok_nodes by (auto simp: FreeList_inv_def)

end
